theory Spec2Isabelle
  imports Main "HOL-Library.Word"
begin

unbundle bit_operations_syntax

section \<open>The rescheduler as an interleaving of goroutines\<close>

text \<open>
  The Go package \<^verbatim>\<open>rescheduler\<close> (file \<^verbatim>\<open>rescheduler.go\<close>) is a struct with a mutex
  \<^verbatim>\<open>lock\<close>, a flag byte \<^verbatim>\<open>me\<close>, the work function \<^verbatim>\<open>call\<close> and a channel \<^verbatim>\<open>done\<close>,
  and three methods: \<^verbatim>\<open>Run\<close>, \<^verbatim>\<open>threadRun\<close> (started by \<^verbatim>\<open>go\<close> from \<^verbatim>\<open>Run\<close>) and \<^verbatim>\<open>Wait\<close>.
  All of its behaviour is concurrent, so the embedding is a small-step one: every goroutine
  that is inside one of the three methods has a program counter naming the source line it
  executes next, and one step of one goroutine executes exactly that line on the shared
  state. A scheduler is a list of actions; nothing is assumed about it.

  \<^item> The mutex is a boolean (Go's \<^verbatim>\<open>sync.Mutex\<close> has no owner): \<^verbatim>\<open>Lock\<close> is enabled only
    while it is false, \<^verbatim>\<open>Unlock\<close> of an unlocked mutex is Go's fatal error.
  \<^item> \<^verbatim>\<open>me\<close> is a \<^verbatim>\<open>byte\<close>, here an 8-bit word, with the source's bit operations.
  \<^item> A channel value is a reference; \<^verbatim>\<open>make\<close> returns a fresh one. Nothing in the package
    ever sends on a channel, so the one-slot buffer stays empty and a channel is
    described by whether it has been closed. A receive on a channel that is not closed
    blocks; a receive on a closed channel returns; \<^verbatim>\<open>close\<close> of a closed channel panics.
  \<^item> \<^verbatim>\<open>call\<close> is opaque: a worker enters it in one step and leaves it in another, and any
    number of steps of other goroutines may lie between the two. The counters \<open>started\<close>
    and \<open>finished\<close> record how often \<^verbatim>\<open>call\<close> has been entered and has returned; the program
    never reads them.
\<close>

type_synonym byte = "8 word"
type_synonym chan = nat

definition R_RUNNING :: byte where
  "R_RUNNING = 1"

definition R_RERUN :: byte where
  "R_RERUN = 2"

text \<open>Program counters. The number in each comment is the line of \<^verbatim>\<open>rescheduler.go\<close> that
  the goroutine executes next.\<close>

datatype pc =
    Run_Lock          \<comment> \<open>42: \<^verbatim>\<open>r.lock.Lock()\<close>\<close>
  | Run_Check         \<comment> \<open>44: \<^verbatim>\<open>if r.me&R_RUNNING == 1\<close>\<close>
  | Run_SetRerun      \<comment> \<open>46: \<^verbatim>\<open>r.me |= R_RERUN\<close>\<close>
  | Run_Unlock1       \<comment> \<open>47, 48: \<^verbatim>\<open>r.lock.Unlock(); return\<close>\<close>
  | Run_SetRunning    \<comment> \<open>52: \<^verbatim>\<open>r.me = R_RUNNING\<close>\<close>
  | Run_Unlock2       \<comment> \<open>53: \<^verbatim>\<open>r.lock.Unlock()\<close>\<close>
  | Run_Go            \<comment> \<open>56: \<^verbatim>\<open>go r.threadRun()\<close>\<close>
  | Run_Ret           \<comment> \<open>\<^verbatim>\<open>Run\<close> has returned\<close>
  | TR_Call           \<comment> \<open>67: about to enter \<^verbatim>\<open>r.call()\<close>\<close>
  | TR_InCall         \<comment> \<open>67: inside \<^verbatim>\<open>r.call()\<close>\<close>
  | TR_Lock           \<comment> \<open>70: \<^verbatim>\<open>r.lock.Lock()\<close>\<close>
  | TR_Check          \<comment> \<open>71: \<^verbatim>\<open>if r.me&R_RERUN == 0\<close>\<close>
  | TR_Clear          \<comment> \<open>73: \<^verbatim>\<open>r.me = 0\<close>\<close>
  | TR_Close          \<comment> \<open>75: \<^verbatim>\<open>close(r.done)\<close>\<close>
  | TR_Make           \<comment> \<open>76: \<^verbatim>\<open>r.done = make(chan struct{}, 1)\<close>\<close>
  | TR_Unlock1        \<comment> \<open>77, 78: \<^verbatim>\<open>r.lock.Unlock(); break\<close>\<close>
  | TR_Flip           \<comment> \<open>81: \<^verbatim>\<open>r.me ^= R_RERUN\<close>\<close>
  | TR_Unlock2        \<comment> \<open>82: \<^verbatim>\<open>r.lock.Unlock()\<close>, then the loop goes round\<close>
  | TR_Ret            \<comment> \<open>\<^verbatim>\<open>threadRun\<close> has returned: the goroutine is gone\<close>
  | Wait_Read         \<comment> \<open>88: evaluate the operand \<^verbatim>\<open>r.done\<close>\<close>
  | Wait_Recv chan    \<comment> \<open>88: the receive \<^verbatim>\<open><-c\<close> on the channel that was read\<close>
  | Wait_Ret chan     \<comment> \<open>\<^verbatim>\<open>Wait\<close> has returned; the channel is the one it received from\<close>

text \<open>The struct \<^verbatim>\<open>Rescheduler\<close> (fields \<open>lock\<close>, \<open>me\<close> and \<open>done\<close>, the last one
  named \<open>done_ch\<close> here because \<open>done\<close> is a keyword; the field \<^verbatim>\<open>call\<close> is the opaque
  work function), the set of closed channels, the allocation counter of \<^verbatim>\<open>make\<close>,
  the goroutines, and the two counters. \<open>crashed\<close> is set by a Go panic or fatal error,
  which ends the whole program.\<close>

record Rescheduler =
  lock :: bool
  me :: byte
  done_ch :: chan
  closed :: "chan set"
  nchan :: nat
  threads :: "pc list"
  started :: nat
  finished :: nat
  crashed :: bool

text \<open>\<^verbatim>\<open>NewRescheduler\<close>: an unlocked mutex, \<open>me = 0\<close>, and a fresh channel that is not closed.
  No goroutine runs yet.\<close>

definition NewRescheduler :: Rescheduler where
  "NewRescheduler =
     \<lparr>lock = False, me = 0, done_ch = 0, closed = {}, nchan = 1, threads = [],
      started = 0, finished = 0, crashed = False\<rparr>"

definition goto :: "nat \<Rightarrow> pc \<Rightarrow> Rescheduler \<Rightarrow> Rescheduler" where
  "goto i p s = s\<lparr>threads := (threads s)[i := p]\<rparr>"

text \<open>\<^verbatim>\<open>Lock\<close> blocks (\<open>None\<close>) while the mutex is held.\<close>

definition do_lock :: "nat \<Rightarrow> pc \<Rightarrow> Rescheduler \<Rightarrow> Rescheduler option" where
  "do_lock i p s = (if lock s then None else Some (goto i p (s\<lparr>lock := True\<rparr>)))"

text \<open>\<^verbatim>\<open>Unlock\<close> of a mutex that is not locked is a fatal error.\<close>

definition do_unlock :: "nat \<Rightarrow> pc \<Rightarrow> Rescheduler \<Rightarrow> Rescheduler option" where
  "do_unlock i p s =
     (if lock s then Some (goto i p (s\<lparr>lock := False\<rparr>)) else Some (s\<lparr>crashed := True\<rparr>))"

text \<open>One line of the source, executed by goroutine \<open>i\<close> whose program counter is the first
  argument. \<open>None\<close>: the goroutine cannot move (it is blocked, or it has returned).\<close>

fun instr :: "pc \<Rightarrow> nat \<Rightarrow> Rescheduler \<Rightarrow> Rescheduler option" where
  "instr Run_Lock i s = do_lock i Run_Check s"
| "instr Run_Check i s =
     Some (goto i (if me s AND R_RUNNING = 1 then Run_SetRerun else Run_SetRunning) s)"
| "instr Run_SetRerun i s = Some (goto i Run_Unlock1 (s\<lparr>me := me s OR R_RERUN\<rparr>))"
| "instr Run_Unlock1 i s = do_unlock i Run_Ret s"
| "instr Run_SetRunning i s = Some (goto i Run_Unlock2 (s\<lparr>me := R_RUNNING\<rparr>))"
| "instr Run_Unlock2 i s = do_unlock i Run_Go s"
| "instr Run_Go i s = Some (s\<lparr>threads := (threads s)[i := Run_Ret] @ [TR_Call]\<rparr>)"
| "instr Run_Ret i s = None"
| "instr TR_Call i s = Some (goto i TR_InCall (s\<lparr>started := started s + 1\<rparr>))"
| "instr TR_InCall i s = Some (goto i TR_Lock (s\<lparr>finished := finished s + 1\<rparr>))"
| "instr TR_Lock i s = do_lock i TR_Check s"
| "instr TR_Check i s =
     Some (goto i (if me s AND R_RERUN = 0 then TR_Clear else TR_Flip) s)"
| "instr TR_Clear i s = Some (goto i TR_Close (s\<lparr>me := 0\<rparr>))"
| "instr TR_Close i s =
     (if done_ch s \<in> closed s then Some (s\<lparr>crashed := True\<rparr>)
      else Some (goto i TR_Make (s\<lparr>closed := insert (done_ch s) (closed s)\<rparr>)))"
| "instr TR_Make i s =
     Some (goto i TR_Unlock1 (s\<lparr>done_ch := nchan s, nchan := nchan s + 1\<rparr>))"
| "instr TR_Unlock1 i s = do_unlock i TR_Ret s"
| "instr TR_Flip i s = Some (goto i TR_Unlock2 (s\<lparr>me := me s XOR R_RERUN\<rparr>))"
| "instr TR_Unlock2 i s = do_unlock i TR_Call s"
| "instr TR_Ret i s = None"
| "instr Wait_Read i s = Some (goto i (Wait_Recv (done_ch s)) s)"
| "instr (Wait_Recv c) i s = (if c \<in> closed s then Some (goto i (Wait_Ret c) s) else None)"
| "instr (Wait_Ret c) i s = None"

definition step :: "nat \<Rightarrow> Rescheduler \<Rightarrow> Rescheduler option" where
  "step i s =
     (if crashed s \<or> \<not> i < length (threads s) then None else instr (threads s ! i) i s)"

text \<open>What a scheduler can do: let some goroutine of the program call \<^verbatim>\<open>r.Run()\<close> or
  \<^verbatim>\<open>r.Wait()\<close> (the call gets the next free index), or let goroutine \<open>i\<close> execute one line.\<close>

datatype action = Call_Run | Call_Wait | Step nat

fun fire :: "action \<Rightarrow> Rescheduler \<Rightarrow> Rescheduler option" where
  "fire Call_Run s =
     (if crashed s then None else Some (s\<lparr>threads := threads s @ [Run_Lock]\<rparr>))"
| "fire Call_Wait s =
     (if crashed s then None else Some (s\<lparr>threads := threads s @ [Wait_Read]\<rparr>))"
| "fire (Step i) s = step i s"

text \<open>A schedule is run from left to right; it is \<open>None\<close> when one of its actions is not
  enabled at its turn.\<close>

fun exec :: "action list \<Rightarrow> Rescheduler \<Rightarrow> Rescheduler option" where
  "exec [] s = Some s"
| "exec (a # as) s = (case fire a s of None \<Rightarrow> None | Some s' \<Rightarrow> exec as s')"


section \<open>The inductive invariant\<close>

text \<open>\<open>cnt P xs\<close> is the number of goroutines whose program counter satisfies \<open>P\<close>.\<close>

definition cnt :: "('a \<Rightarrow> bool) \<Rightarrow> 'a list \<Rightarrow> nat" where
  "cnt P xs = length (filter P xs)"

text \<open>The program counters between a \<^verbatim>\<open>Lock\<close> and its \<^verbatim>\<open>Unlock\<close>.\<close>

fun holds_lock :: "pc \<Rightarrow> bool" where
  "holds_lock Run_Check = True"
| "holds_lock Run_SetRerun = True"
| "holds_lock Run_Unlock1 = True"
| "holds_lock Run_SetRunning = True"
| "holds_lock Run_Unlock2 = True"
| "holds_lock TR_Check = True"
| "holds_lock TR_Clear = True"
| "holds_lock TR_Close = True"
| "holds_lock TR_Make = True"
| "holds_lock TR_Unlock1 = True"
| "holds_lock TR_Flip = True"
| "holds_lock TR_Unlock2 = True"
| "holds_lock _ = False"

text \<open>The program counters that carry the right to run \<^verbatim>\<open>call\<close>: a caller of \<^verbatim>\<open>Run\<close> that
  has written \<open>R_RUNNING\<close> and has not yet started its goroutine, and a worker that has not yet
  written \<open>me = 0\<close>.\<close>

fun owner :: "pc \<Rightarrow> bool" where
  "owner Run_Unlock2 = True"
| "owner Run_Go = True"
| "owner TR_Call = True"
| "owner TR_InCall = True"
| "owner TR_Lock = True"
| "owner TR_Check = True"
| "owner TR_Clear = True"
| "owner TR_Flip = True"
| "owner TR_Unlock2 = True"
| "owner _ = False"

text \<open>What a goroutine inside a critical section knows about \<open>me\<close>.\<close>

fun local_ok :: "byte \<Rightarrow> pc \<Rightarrow> bool" where
  "local_ok m Run_SetRerun = (m = 1 \<or> m = 3)"
| "local_ok m Run_Unlock1 = (m = 3)"
| "local_ok m Run_SetRunning = (m = 0)"
| "local_ok m Run_Unlock2 = (m = 1)"
| "local_ok m TR_Clear = (m = 1)"
| "local_ok m TR_Close = (m = 0)"
| "local_ok m TR_Make = (m = 0)"
| "local_ok m TR_Unlock1 = (m = 0)"
| "local_ok m TR_Flip = (m = 3)"
| "local_ok m TR_Unlock2 = (m = 1)"
| "local_ok m _ = True"

text \<open>\<^verbatim>\<open>Wait\<close> has returned only from a receive on a closed channel.\<close>

fun recv_ok :: "chan set \<Rightarrow> pc \<Rightarrow> bool" where
  "recv_ok C (Wait_Ret c) = (c \<in> C)"
| "recv_ok C _ = True"

text \<open>The parts of the invariant: the mutex is held by exactly the goroutines in a critical
  section, of which there is at most one; \<open>me\<close> is non-zero exactly while there is an owner, of
  which there is at most one; \<open>me\<close> is 0, 1 or 3; the current channel is fresh and open
  except between lines 75 and 76; \<open>started\<close> is ahead of \<open>finished\<close> by the number of goroutines
  inside \<^verbatim>\<open>call\<close>.\<close>

definition inv_lock :: "Rescheduler \<Rightarrow> bool" where
  "inv_lock s \<longleftrightarrow> cnt holds_lock (threads s) = (if lock s then 1 else 0)"

definition inv_owner :: "Rescheduler \<Rightarrow> bool" where
  "inv_owner s \<longleftrightarrow> cnt owner (threads s) = (if me s = 0 then 0 else 1)"

definition inv_me :: "Rescheduler \<Rightarrow> bool" where
  "inv_me s \<longleftrightarrow>
     (me s = 0 \<or> me s = 1 \<or> me s = 3) \<and> list_all (local_ok (me s)) (threads s)"

definition inv_chan :: "Rescheduler \<Rightarrow> bool" where
  "inv_chan s \<longleftrightarrow>
     done_ch s < nchan s \<and> (\<forall>c\<in>closed s. c < nchan s) \<and>
     (done_ch s \<in> closed s \<longleftrightarrow> 0 < cnt (\<lambda>p. p = TR_Make) (threads s)) \<and>
     list_all (recv_ok (closed s)) (threads s)"

definition inv_count :: "Rescheduler \<Rightarrow> bool" where
  "inv_count s \<longleftrightarrow> started s = finished s + cnt (\<lambda>p. p = TR_InCall) (threads s)"

definition invar :: "Rescheduler \<Rightarrow> bool" where
  "invar s \<longleftrightarrow>
     \<not> crashed s \<and> inv_lock s \<and> inv_owner s \<and> inv_me s \<and> inv_chan s \<and> inv_count s"

section \<open>Vocabulary of the statements\<close>

text \<open>A goroutine that is inside \<^verbatim>\<open>threadRun\<close>.\<close>

fun worker_alive :: "pc \<Rightarrow> bool" where
  "worker_alive TR_Call = True"
| "worker_alive TR_InCall = True"
| "worker_alive TR_Lock = True"
| "worker_alive TR_Check = True"
| "worker_alive TR_Clear = True"
| "worker_alive TR_Close = True"
| "worker_alive TR_Make = True"
| "worker_alive TR_Unlock1 = True"
| "worker_alive TR_Flip = True"
| "worker_alive TR_Unlock2 = True"
| "worker_alive _ = False"

text \<open>The last three lines of a worker that found no rerun request.\<close>

fun leaving :: "pc \<Rightarrow> bool" where
  "leaving TR_Close = True"
| "leaving TR_Make = True"
| "leaving TR_Unlock1 = True"
| "leaving _ = False"

text \<open>A goroutine that is inside \<^verbatim>\<open>Run\<close>.\<close>

fun in_Run :: "pc \<Rightarrow> bool" where
  "in_Run Run_Lock = True"
| "in_Run Run_Check = True"
| "in_Run Run_SetRerun = True"
| "in_Run Run_Unlock1 = True"
| "in_Run Run_SetRunning = True"
| "in_Run Run_Unlock2 = True"
| "in_Run Run_Go = True"
| "in_Run _ = False"

text \<open>A goroutine that has returned, or that is inside \<^verbatim>\<open>Wait\<close>.\<close>

fun quiet :: "pc \<Rightarrow> bool" where
  "quiet Run_Ret = True"
| "quiet TR_Ret = True"
| "quiet Wait_Read = True"
| "quiet (Wait_Recv c) = True"
| "quiet (Wait_Ret c) = True"
| "quiet _ = False"

text \<open>The promise that a request leaves behind. \<open>safe m fresh p\<close> says of a goroutine at \<open>p\<close>,
  when \<open>me = m\<close>, that it cannot reach line 73 without another execution of \<^verbatim>\<open>call\<close>:
  a worker inside \<^verbatim>\<open>call\<close> runs an execution that began after the request (\<open>fresh\<close>) or will
  find the rerun flag; a worker between \<^verbatim>\<open>call\<close> and its test will find the rerun flag; no
  worker is past the test on its way out.\<close>

fun safe :: "byte \<Rightarrow> bool \<Rightarrow> pc \<Rightarrow> bool" where
  "safe m fresh TR_InCall = (fresh \<or> m = 3)"
| "safe m fresh TR_Lock = (m = 3)"
| "safe m fresh TR_Check = (m = 3)"
| "safe m fresh TR_Clear = False"
| "safe m fresh TR_Close = False"
| "safe m fresh TR_Make = False"
| "safe m fresh TR_Unlock1 = False"
| "safe m fresh _ = True"

text \<open>\<open>obl n s\<close>: more than \<open>n\<close> executions of \<^verbatim>\<open>call\<close> have returned, or every goroutine is
  safe in the sense above, where an execution is fresh when more than \<open>n\<close> have been entered.\<close>

definition obl :: "nat \<Rightarrow> Rescheduler \<Rightarrow> bool" where
  "obl n s \<longleftrightarrow> n < finished s \<or> list_all (safe (me s) (n < started s)) (threads s)"

text \<open>A caller of \<^verbatim>\<open>Run\<close> before and after its write to \<open>me\<close> (line 46 or line 52).\<close>

fun before_write :: "pc \<Rightarrow> bool" where
  "before_write Run_Lock = True"
| "before_write Run_Check = True"
| "before_write Run_SetRerun = True"
| "before_write Run_SetRunning = True"
| "before_write _ = False"

fun after_write :: "pc \<Rightarrow> bool" where
  "after_write Run_Unlock1 = True"
| "after_write Run_Unlock2 = True"
| "after_write Run_Go = True"
| "after_write Run_Ret = True"
| "after_write _ = False"

text \<open>\<open>pending n r s\<close>: goroutine \<open>r\<close> is inside \<^verbatim>\<open>Run\<close> and has not written yet. \<open>served n r s\<close>:
  it has written, and since then the instance owes an execution of \<^verbatim>\<open>call\<close> beyond the
  first \<open>n\<close>: either that execution has returned or \<open>me\<close> is not 0.\<close>

definition pending :: "nat \<Rightarrow> nat \<Rightarrow> Rescheduler \<Rightarrow> bool" where
  "pending n r s \<longleftrightarrow> r < length (threads s) \<and> before_write (threads s ! r) \<and> n \<le> started s"

definition served :: "nat \<Rightarrow> nat \<Rightarrow> Rescheduler \<Rightarrow> bool" where
  "served n r s \<longleftrightarrow>
     r < length (threads s) \<and> after_write (threads s ! r) \<and> n \<le> started s \<and> obl n s \<and>
     (n < finished s \<or> me s \<noteq> 0)"

text \<open>\<open>waits n d0 n0 w s\<close>: goroutine \<open>w\<close> is inside \<^verbatim>\<open>Wait\<close>; the channel it has read is \<open>d0\<close>
  or one made since the allocation counter was \<open>n0\<close>; and if that channel is closed, more
  than \<open>n\<close> executions of \<^verbatim>\<open>call\<close> have returned.\<close>

fun wait_ok :: "bool \<Rightarrow> chan \<Rightarrow> nat \<Rightarrow> chan set \<Rightarrow> pc \<Rightarrow> bool" where
  "wait_ok g d0 n0 C Wait_Read = True"
| "wait_ok g d0 n0 C (Wait_Recv c) = ((c = d0 \<or> n0 \<le> c) \<and> (c \<in> C \<longrightarrow> g))"
| "wait_ok g d0 n0 C (Wait_Ret c) = ((c = d0 \<or> n0 \<le> c) \<and> g)"
| "wait_ok g d0 n0 C _ = False"

definition waits :: "nat \<Rightarrow> chan \<Rightarrow> nat \<Rightarrow> nat \<Rightarrow> Rescheduler \<Rightarrow> bool" where
  "waits n d0 n0 w s \<longleftrightarrow>
     w < length (threads s) \<and> wait_ok (n < finished s) d0 n0 (closed s) (threads s ! w) \<and>
     (done_ch s = d0 \<or> n0 \<le> done_ch s) \<and> n0 \<le> nchan s"

section \<open>Proofs\<close>

lemmas defs = step_def goto_def do_lock_def do_unlock_def R_RUNNING_def R_RERUN_def

subsection \<open>Counting program counters\<close>

lemma cnt_Nil [simp]: "cnt P [] = 0"
  by (simp add: cnt_def)

lemma cnt_Cons [simp]: "cnt P (x # xs) = (if P x then 1 else 0) + cnt P xs"
  by (simp add: cnt_def)

lemma cnt_append [simp]: "cnt P (xs @ ys) = cnt P xs + cnt P ys"
  by (simp add: cnt_def)

lemma cnt_update_eq:
  "i < length xs \<Longrightarrow>
   cnt P (xs[i := y]) + (if P (xs ! i) then 1 else 0) = cnt P xs + (if P y then 1 else 0)"
proof (induction xs arbitrary: i)
  case Nil
  then show ?case by simp
next
  case (Cons x xs)
  then show ?case by (cases i) auto
qed

lemma cnt_pos: "i < length xs \<Longrightarrow> P (xs ! i) \<Longrightarrow> 0 < cnt P xs"
  unfolding cnt_def by (metis length_pos_if_in_set mem_Collect_eq nth_mem set_filter)

lemma cnt_update [simp]:
  "i < length xs \<Longrightarrow>
   cnt P (xs[i := y]) = cnt P xs - (if P (xs ! i) then 1 else 0) + (if P y then 1 else 0)"
  using cnt_update_eq [of i xs P y] cnt_pos [of i xs P] by (auto split: if_splits)

lemma cnt_zero: "cnt P xs = 0 \<longleftrightarrow> (\<forall>x\<in>set xs. \<not> P x)"
  by (induction xs) auto

lemma cnt_unique:
  "cnt P xs \<le> 1 \<Longrightarrow> i < length xs \<Longrightarrow> j < length xs \<Longrightarrow> P (xs ! i) \<Longrightarrow> P (xs ! j) \<Longrightarrow> i = j"
proof (induction xs arbitrary: i j)
  case Nil
  then show ?case by simp
next
  case (Cons x xs)
  show ?case
  proof (cases i)
    case 0
    show ?thesis
    proof (cases j)
      case (Suc j')
      with Cons.prems 0 have "0 < cnt P xs" "P x"
        using cnt_pos [of j' xs P] by auto
      with Cons.prems show ?thesis by simp
    qed (simp add: 0)
  next
    case (Suc i')
    note i = this
    show ?thesis
    proof (cases j)
      case 0
      with Cons.prems i have "0 < cnt P xs" "P x"
        using cnt_pos [of i' xs P] by auto
      with Cons.prems show ?thesis by simp
    next
      case (Suc j')
      with Cons.prems i have "i' = j'"
        by (intro Cons.IH) (auto split: if_splits)
      with i Suc show ?thesis by simp
    qed
  qed
qed

lemma cnt_sub_zero:
  assumes "cnt P xs \<le> 1" "i < length xs" "P (xs ! i)" "\<not> Q (xs ! i)" "\<And>p. Q p \<Longrightarrow> P p"
  shows "cnt Q xs = 0"
proof -
  have "\<not> Q x" if "x \<in> set xs" for x
  proof
    assume q: "Q x"
    from that obtain j where j: "j < length xs" "xs ! j = x"
      by (auto simp: in_set_conv_nth)
    with q assms have "j = i" by (intro cnt_unique [of P xs]) auto
    with j q assms show False by simp
  qed
  then show ?thesis by (simp add: cnt_zero)
qed

lemma cnt_mono: "(\<And>p. Q p \<Longrightarrow> P p) \<Longrightarrow> cnt Q xs \<le> cnt P xs"
  by (induction xs) auto

text \<open>What the invariant says about the goroutine that is about to move.\<close>

lemma invar_at:
  assumes "invar s" "i < length (threads s)" "threads s ! i = p"
  shows "holds_lock p \<Longrightarrow> lock s"
    and "owner p \<Longrightarrow> me s \<noteq> 0"
    and "local_ok (me s) p"
    and "p = TR_Close \<Longrightarrow> done_ch s \<notin> closed s"
    and "\<not> crashed s"
proof -
  from assms have L: "cnt holds_lock (threads s) = (if lock s then 1 else 0)"
    and O: "cnt owner (threads s) = (if me s = 0 then 0 else 1)"
    by (simp_all add: invar_def inv_lock_def inv_owner_def)
  show "holds_lock p \<Longrightarrow> lock s"
    using cnt_pos [of i "threads s" holds_lock] assms L by (auto split: if_splits)
  show "owner p \<Longrightarrow> me s \<noteq> 0"
    using cnt_pos [of i "threads s" owner] assms O by (auto split: if_splits)
  show "local_ok (me s) p"
    using assms by (auto simp: invar_def inv_me_def list_all_length)
  show "\<not> crashed s"
    using assms by (simp add: invar_def)
  show "done_ch s \<notin> closed s" if "p = TR_Close"
  proof -
    have "cnt (\<lambda>p. p = TR_Make) (threads s) = 0"
      using L assms that by (intro cnt_sub_zero [of holds_lock _ i]) auto
    with assms show ?thesis by (simp add: invar_def inv_chan_def)
  qed
qed

subsection \<open>The invariant is inductive\<close>

lemma step_cases:
  assumes "step i s = Some s'"
  obtains p where "i < length (threads s)" "\<not> crashed s" "threads s ! i = p" "instr p i s = Some s'"
  using assms by (auto simp: step_def split: if_splits)

lemma step_inv_lock:
  assumes "step i s = Some s'" "invar s"
  shows "inv_lock s' \<and> \<not> crashed s'"
proof -
  from assms(1) obtain p where p: "i < length (threads s)" "threads s ! i = p" "instr p i s = Some s'"
    by (rule step_cases)
  from assms(2) have L: "inv_lock s" by (simp add: invar_def)
  note at = invar_at [OF assms(2) p(1,2)]
  show ?thesis
    using p L at(1,4,5)
    by (cases p) (auto simp: inv_lock_def goto_def do_lock_def do_unlock_def split: if_splits)
qed

lemma step_inv_owner:
  assumes "step i s = Some s'" "invar s"
  shows "inv_owner s'"
proof -
  from assms(1) obtain p where p: "i < length (threads s)" "threads s ! i = p" "instr p i s = Some s'"
    by (rule step_cases)
  from assms(2) have L: "inv_owner s" by (simp add: invar_def)
  note at = invar_at [OF assms(2) p(1,2)]
  show ?thesis
    using p L at
    by (cases p) (auto simp: inv_owner_def goto_def do_lock_def do_unlock_def R_RUNNING_def R_RERUN_def split: if_splits)
qed


lemma local_ok_free: "\<not> holds_lock p \<Longrightarrow> local_ok m p"
  by (cases p) simp_all

lemma set_update_cases:
  assumes "x \<in> set (xs[i := y])"
  shows "x = y \<or> (\<exists>j<length xs. j \<noteq> i \<and> xs ! j = x)"
proof -
  from assms obtain j where "j < length xs" "xs[i := y] ! j = x"
    by (auto simp: in_set_conv_nth)
  then show ?thesis by (cases "j = i") auto
qed

lemma others_free:
  assumes "invar s" "i < length (threads s)" "holds_lock (threads s ! i)"
    and "x \<in> set ((threads s)[i := y])"
  shows "x = y \<or> (\<not> holds_lock x \<and> x \<in> set (threads s))"
proof -
  from assms(1) have L: "cnt holds_lock (threads s) \<le> 1"
    by (simp add: invar_def inv_lock_def)
  from set_update_cases [OF assms(4)] show ?thesis
  proof
    assume "\<exists>j<length (threads s). j \<noteq> i \<and> threads s ! j = x"
    then obtain j where j: "j < length (threads s)" "j \<noteq> i" "threads s ! j = x" by blast
    with cnt_unique [OF L assms(2) j(1) assms(3)] have "\<not> holds_lock x" by auto
    with j show ?thesis by auto
  qed simp
qed

lemma local_ok_update_locked:
  assumes "invar s" "i < length (threads s)" "holds_lock (threads s ! i)" "local_ok m y"
  shows "list_all (local_ok m) ((threads s)[i := y])"
  unfolding list_all_iff using others_free [OF assms(1-3)] assms(4) local_ok_free by blast

lemma list_all_update:
  assumes "list_all P xs" "P y"
  shows "list_all P (xs[i := y])"
  using assms set_update_subset_insert [of xs i y] unfolding list_all_iff by auto

lemma step_inv_me:
  assumes "step i s = Some s'" "invar s"
  shows "inv_me s'"
proof -
  from assms(1) obtain p where p: "i < length (threads s)" "threads s ! i = p" "instr p i s = Some s'"
    by (rule step_cases)
  from assms(2) have L: "inv_me s" by (simp add: invar_def)
  note at = invar_at [OF assms(2) p(1,2)]
  note lk = local_ok_update_locked [OF assms(2) p(1)]
  show ?thesis
    using p L at
    by (cases p) (auto simp: inv_me_def goto_def do_lock_def do_unlock_def R_RUNNING_def R_RERUN_def
         lk list_all_update split: if_splits)
qed

lemma recv_ok_mono: "list_all (recv_ok C) xs \<Longrightarrow> list_all (recv_ok (insert c C)) xs"
proof -
  have "recv_ok C p \<Longrightarrow> recv_ok (insert c C) p" for p
    by (cases p) simp_all
  then show "list_all (recv_ok C) xs \<Longrightarrow> list_all (recv_ok (insert c C)) xs"
    by (auto simp: list_all_iff)
qed

lemma invar_make_le: "invar s \<Longrightarrow> cnt (\<lambda>p. p = TR_Make) (threads s) \<le> 1"
proof -
  assume "invar s"
  then have "cnt holds_lock (threads s) \<le> 1"
    by (simp add: invar_def inv_lock_def)
  moreover have "cnt (\<lambda>p. p = TR_Make) (threads s) \<le> cnt holds_lock (threads s)"
    by (rule cnt_mono) simp
  ultimately show ?thesis by simp
qed

lemma step_inv_chan:
  assumes "step i s = Some s'" "invar s"
  shows "inv_chan s'"
proof -
  from assms(1) obtain p where p: "i < length (threads s)" "threads s ! i = p" "instr p i s = Some s'"
    by (rule step_cases)
  from assms(2) have L: "inv_chan s" by (simp add: invar_def)
  note at = invar_at [OF assms(2) p(1,2)]
  note mk = invar_make_le [OF assms(2)]
  show ?thesis
    using p L at mk
    by (cases p) (auto simp: inv_chan_def goto_def do_lock_def do_unlock_def 
         list_all_update recv_ok_mono less_Suc_eq split: if_splits)
qed

lemma step_inv_count:
  assumes "step i s = Some s'" "invar s"
  shows "inv_count s'"
proof -
  from assms(1) obtain p where p: "i < length (threads s)" "threads s ! i = p" "instr p i s = Some s'"
    by (rule step_cases)
  from assms(2) have L: "inv_count s" by (simp add: invar_def)
  note at = invar_at [OF assms(2) p(1,2)]
  note pos = cnt_pos [of i "threads s" "\<lambda>p. p = TR_InCall"]
  show ?thesis
    using p L at pos
    by (cases p) (auto simp: inv_count_def goto_def do_lock_def do_unlock_def 
         split: if_splits)
qed

lemma step_invar:
  assumes "step i s = Some s'" "invar s"
  shows "invar s'"
  using step_inv_lock [OF assms] step_inv_owner [OF assms] step_inv_me [OF assms]
    step_inv_chan [OF assms] step_inv_count [OF assms]
  by (simp add: invar_def)

lemma fire_invar:
  assumes "fire a s = Some s'" "invar s"
  shows "invar s'"
proof (cases a)
  case Call_Run
  with assms show ?thesis
    by (auto simp: invar_def inv_lock_def inv_owner_def inv_me_def inv_chan_def inv_count_def
        split: if_splits)
next
  case Call_Wait
  with assms show ?thesis
    by (auto simp: invar_def inv_lock_def inv_owner_def inv_me_def inv_chan_def inv_count_def
        split: if_splits)
next
  case (Step i)
  with assms show ?thesis by (simp add: step_invar)
qed

lemma exec_invar: "exec as s = Some s' \<Longrightarrow> invar s \<Longrightarrow> invar s'"
proof (induction as arbitrary: s)
  case Nil
  then show ?case by simp
next
  case (Cons a as)
  then show ?case by (auto split: option.splits dest: fire_invar)
qed

lemma invar_New: "invar NewRescheduler"
  by (simp add: NewRescheduler_def invar_def inv_lock_def inv_owner_def inv_me_def inv_chan_def inv_count_def)

subsection \<open>Consequences of the invariant\<close>

lemma reach_invar: "exec as NewRescheduler = Some s \<Longrightarrow> invar s"
  by (rule exec_invar [OF _ invar_New])

lemma cnt_or: "cnt (\<lambda>p. P p \<or> Q p) xs \<le> cnt P xs + cnt Q xs"
  by (induction xs) auto

lemma cnt_ex: "0 < cnt P xs \<Longrightarrow> \<exists>i<length xs. P (xs ! i)"
  by (metis cnt_zero in_set_conv_nth not_gr_zero)

lemma invar_worker_alive:
  assumes "invar s"
  shows "cnt worker_alive (threads s) \<le> 1"
proof -
  have "cnt worker_alive (threads s) \<le> cnt (\<lambda>p. owner p \<or> leaving p) (threads s)"
  proof (rule cnt_mono)
    fix p show "worker_alive p \<Longrightarrow> owner p \<or> leaving p" by (cases p) simp_all
  qed
  also have "\<dots> \<le> cnt owner (threads s) + cnt leaving (threads s)"
    by (rule cnt_or)
  finally have le: "cnt worker_alive (threads s) \<le> cnt owner (threads s) + cnt leaving (threads s)" .
  have lv: "cnt leaving (threads s) \<le> cnt holds_lock (threads s)"
  proof (rule cnt_mono)
    fix p show "leaving p \<Longrightarrow> holds_lock p" by (cases p) simp_all
  qed
  from assms have L: "cnt holds_lock (threads s) \<le> 1" and O: "cnt owner (threads s) = (if me s = 0 then 0 else 1)"
    by (simp_all add: invar_def inv_lock_def inv_owner_def)
  show ?thesis
  proof (cases "cnt leaving (threads s) = 0")
    case True
    with le O show ?thesis by (simp split: if_splits)
  next
    case False
    then obtain i where i: "i < length (threads s)" "leaving (threads s ! i)"
      using cnt_ex [of leaving "threads s"] by auto
    have "local_ok (me s) (threads s ! i)"
      by (rule invar_at(3) [OF assms i(1) refl])
    with i(2) have "me s = 0" by (cases "threads s ! i") simp_all
    with le O lv L show ?thesis by simp
  qed
qed

lemma invar_open:
  assumes "invar s" "\<not> lock s \<or> (\<exists>i<length (threads s). holds_lock (threads s ! i) \<and> threads s ! i \<noteq> TR_Make)"
  shows "done_ch s \<notin> closed s"
proof -
  from assms(1) have L: "cnt holds_lock (threads s) = (if lock s then 1 else 0)"
    by (simp add: invar_def inv_lock_def)
  have "cnt (\<lambda>p. p = TR_Make) (threads s) = 0"
    using assms(2)
  proof
    assume "\<not> lock s"
    with L have "cnt holds_lock (threads s) = 0" by simp
    moreover have "cnt (\<lambda>p. p = TR_Make) (threads s) \<le> cnt holds_lock (threads s)"
      by (rule cnt_mono) simp
    ultimately show ?thesis by simp
  next
    assume "\<exists>i<length (threads s). holds_lock (threads s ! i) \<and> threads s ! i \<noteq> TR_Make"
    then obtain i where "i < length (threads s)" "holds_lock (threads s ! i)" "threads s ! i \<noteq> TR_Make"
      by blast
    with L show ?thesis by (intro cnt_sub_zero [of holds_lock _ i]) auto
  qed
  with assms(1) show ?thesis by (simp add: invar_def inv_chan_def)
qed

lemma invar_fresh: "invar s \<Longrightarrow> nchan s \<notin> closed s \<and> nchan s \<noteq> done_ch s"
  by (auto simp: invar_def inv_chan_def)


section \<open>The state byte\<close>

text \<open>
  Claim C9. In every reachable state the byte \<open>me\<close> is 0 (idle), 1 (\<open>R_RUNNING\<close>) or 3
  (\<open>R_RUNNING | R_RERUN\<close>). The value 2, the rerun flag without the running flag, is never
  reached: whenever the rerun flag is set the running flag is set too, and exactly one
  goroutine owns the run (a worker, or the caller of \<^verbatim>\<open>Run\<close> that is about to start it).
\<close>

theorem me_encoding:
  assumes "exec as NewRescheduler = Some s"
  shows "(me s = 0 \<or> me s = R_RUNNING \<or> me s = R_RUNNING OR R_RERUN) \<and> me s \<noteq> R_RERUN \<and>
         (me s AND R_RERUN \<noteq> 0 \<longrightarrow> me s AND R_RUNNING \<noteq> 0 \<and> cnt owner (threads s) = 1)"
proof -
  have I: "invar s" by (rule reach_invar [OF assms])
  then have "me s = 0 \<or> me s = 1 \<or> me s = 3" and "cnt owner (threads s) = (if me s = 0 then 0 else 1)"
    by (simp_all add: invar_def inv_me_def inv_owner_def)
  then show ?thesis
    by (auto simp: R_RUNNING_def R_RERUN_def)
qed

theorem me_encoding_witness:
  "exec [Call_Run, Step 0, Step 0, Step 0, Step 0, Step 0, Step 1, Call_Run, Step 2,
         Step 2, Step 2, Step 2] NewRescheduler =
     Some \<lparr>lock = False, me = 3, done_ch = 0, closed = {}, nchan = 1,
           threads = [Run_Ret, TR_InCall, Run_Ret], started = 1, finished = 0,
           crashed = False\<rparr> \<and>
   (3 :: byte) = R_RUNNING OR R_RERUN \<and> (3 :: byte) \<noteq> R_RERUN \<and>
   cnt owner [Run_Ret, TR_InCall, Run_Ret] = 1"
proof -
  have e: "exec [Call_Run, Step 0, Step 0, Step 0, Step 0, Step 0, Step 1, Call_Run, Step 2,
         Step 2, Step 2, Step 2] NewRescheduler =
     Some \<lparr>lock = False, me = 3, done_ch = 0, closed = {}, nchan = 1,
           threads = [Run_Ret, TR_InCall, Run_Ret], started = 1, finished = 0,
           crashed = False\<rparr>"
    by (simp add: NewRescheduler_def defs)
  from me_encoding [OF e] e show ?thesis by (simp add: R_RUNNING_def R_RERUN_def)
qed


section \<open>Mutual exclusion\<close>

text \<open>
  Claim C2. In every reachable state at most one goroutine is inside \<^verbatim>\<open>call\<close>. The number of
  executions in progress, \<open>started - finished\<close>, is the number of goroutines inside \<^verbatim>\<open>call\<close>
  and so never exceeds 1; and there is at most one live \<^verbatim>\<open>threadRun\<close> goroutine at all, since a
  worker is started only by the \<^verbatim>\<open>Run\<close> that found \<open>me = 0\<close> and a rerun happens on the
  same goroutine.
\<close>

theorem mutual_exclusion:
  assumes "exec as NewRescheduler = Some s"
  shows "cnt (\<lambda>p. p = TR_InCall) (threads s) \<le> 1 \<and>
         started s = finished s + cnt (\<lambda>p. p = TR_InCall) (threads s) \<and>
         cnt worker_alive (threads s) \<le> 1"
proof -
  have I: "invar s" by (rule reach_invar [OF assms])
  have "cnt (\<lambda>p. p = TR_InCall) (threads s) \<le> cnt worker_alive (threads s)"
    by (rule cnt_mono) simp
  with invar_worker_alive [OF I] I show ?thesis
    by (simp add: invar_def inv_count_def)
qed

theorem mutual_exclusion_witness:
  "exec [Call_Run, Step 0, Step 0, Step 0, Step 0, Step 0, Step 1, Call_Run, Step 2,
         Step 2, Step 2, Step 2] NewRescheduler =
     Some \<lparr>lock = False, me = 3, done_ch = 0, closed = {}, nchan = 1,
           threads = [Run_Ret, TR_InCall, Run_Ret], started = 1, finished = 0,
           crashed = False\<rparr> \<and>
   cnt (\<lambda>p. p = TR_InCall) [Run_Ret, TR_InCall, Run_Ret] = 1 \<and>
   cnt worker_alive [Run_Ret, TR_InCall, Run_Ret] \<le> 1"
proof -
  have e: "exec [Call_Run, Step 0, Step 0, Step 0, Step 0, Step 0, Step 1, Call_Run, Step 2,
         Step 2, Step 2, Step 2] NewRescheduler =
     Some \<lparr>lock = False, me = 3, done_ch = 0, closed = {}, nchan = 1,
           threads = [Run_Ret, TR_InCall, Run_Ret], started = 1, finished = 0,
           crashed = False\<rparr>"
    by (simp add: NewRescheduler_def defs)
  from mutual_exclusion [OF e] e show ?thesis by simp
qed


section \<open>The transition made by \<^verbatim>\<open>Run\<close>\<close>

text \<open>
  Claim C5. A call of \<^verbatim>\<open>Run\<close> on an unlocked instance, run without interruption: if \<open>me\<close> is
  0 (idle) it sets \<open>me\<close> to \<open>R_RUNNING\<close>, releases the mutex, starts exactly one worker (a new
  goroutine at the first line of \<^verbatim>\<open>threadRun\<close>) and returns; \<^verbatim>\<open>call\<close> has not been entered
  when it returns. If \<open>me\<close> is \<open>R_RUNNING\<close> or \<open>R_RUNNING | R_RERUN\<close> it sets \<open>me\<close> to
  \<open>R_RUNNING | R_RERUN\<close>, releases the mutex and returns; no goroutine is started. Nothing
  else of the state changes.
\<close>

theorem Run_transition:
  assumes "\<not> crashed s" and "\<not> lock s" and "r = length (threads s)"
  shows "(me s = 0 \<longrightarrow>
            exec [Call_Run, Step r, Step r, Step r, Step r, Step r] s =
              Some (s\<lparr>me := R_RUNNING, threads := threads s @ [Run_Ret, TR_Call]\<rparr>)) \<and>
         (me s = R_RUNNING \<or> me s = R_RUNNING OR R_RERUN \<longrightarrow>
            exec [Call_Run, Step r, Step r, Step r, Step r] s =
              Some (s\<lparr>me := R_RUNNING OR R_RERUN, threads := threads s @ [Run_Ret]\<rparr>))"
  using assms by (auto simp: defs nth_append)

theorem Run_transition_witness:
  "exec [Call_Run, Step 0, Step 0, Step 0, Step 0, Step 0] NewRescheduler =
     Some \<lparr>lock = False, me = 1, done_ch = 0, closed = {}, nchan = 1,
       threads = [Run_Ret, TR_Call], started = 0, finished = 0, crashed = False\<rparr> \<and>
   exec [Call_Run, Step 2, Step 2, Step 2, Step 2]
     \<lparr>lock = False, me = 1, done_ch = 0, closed = {}, nchan = 1,
       threads = [Run_Ret, TR_Call], started = 0, finished = 0, crashed = False\<rparr> =
     Some \<lparr>lock = False, me = 3, done_ch = 0, closed = {}, nchan = 1,
       threads = [Run_Ret, TR_Call, Run_Ret], started = 0, finished = 0, crashed = False\<rparr>"
  using Run_transition [of NewRescheduler 0]
    Run_transition [of "\<lparr>lock = False, me = 1, done_ch = 0, closed = {}, nchan = 1,
       threads = [Run_Ret, TR_Call], started = 0, finished = 0, crashed = False\<rparr>" 2]
  by (simp add: NewRescheduler_def R_RUNNING_def R_RERUN_def)


section \<open>One round of the worker\<close>

text \<open>
  Claim C4. A worker whose \<^verbatim>\<open>call\<close> returns while the mutex is free, run without
  interruption. If the rerun flag is clear it takes the mutex, sets \<open>me\<close> to 0, closes the
  current channel, which lets every goroutine that waits on it proceed, stores a fresh
  channel that is not closed, releases the mutex and ends. If the rerun flag is set, \<open>me\<close>
  is \<open>R_RUNNING | R_RERUN\<close>; the worker takes the mutex, clears that flag only (\<open>me\<close> becomes
  \<open>R_RUNNING\<close>), releases the mutex and enters \<^verbatim>\<open>call\<close> again on the same goroutine: the
  list of goroutines has the same length as before.
\<close>

theorem threadRun_cycle_step:
  assumes "exec as NewRescheduler = Some s" and "k < length (threads s)"
    and "threads s ! k = TR_InCall" and "\<not> lock s"
  shows "(me s AND R_RERUN = 0 \<longrightarrow>
            exec [Step k, Step k, Step k, Step k, Step k, Step k, Step k] s =
              Some (s\<lparr>me := 0, closed := insert (done_ch s) (closed s), done_ch := nchan s,
                      nchan := nchan s + 1, finished := finished s + 1,
                      threads := (threads s)[k := TR_Ret]\<rparr>) \<and>
            nchan s \<notin> insert (done_ch s) (closed s) \<and>
            (\<forall>w<length (threads s). threads s ! w = Wait_Recv (done_ch s) \<longrightarrow>
               instr (Wait_Recv (done_ch s)) w
                 (s\<lparr>me := 0, closed := insert (done_ch s) (closed s), done_ch := nchan s,
                    nchan := nchan s + 1, finished := finished s + 1,
                    threads := (threads s)[k := TR_Ret]\<rparr>) \<noteq> None)) \<and>
         (me s AND R_RERUN \<noteq> 0 \<longrightarrow>
            me s = R_RUNNING OR R_RERUN \<and>
            exec [Step k, Step k, Step k, Step k, Step k] s =
              Some (s\<lparr>me := R_RUNNING, finished := finished s + 1,
                      threads := (threads s)[k := TR_Call]\<rparr>) \<and>
            exec [Step k, Step k, Step k, Step k, Step k, Step k] s =
              Some (s\<lparr>me := R_RUNNING, finished := finished s + 1, started := started s + 1,
                      threads := (threads s)[k := TR_InCall]\<rparr>))"
proof -
  have I: "invar s" by (rule reach_invar [OF assms(1)])
  have nc: "\<not> crashed s" using I by (simp add: invar_def)
  have op: "done_ch s \<notin> closed s" using invar_open [OF I] assms(4) by simp
  have fr: "nchan s \<notin> closed s" "nchan s \<noteq> done_ch s" using invar_fresh [OF I] by simp_all
  have m: "me s = 1 \<or> me s = 3"
    using I invar_at(2) [OF I assms(2,3)] by (auto simp: invar_def inv_me_def)
  show ?thesis
    using m assms(2-4) nc op fr by (auto simp: defs)
qed

theorem threadRun_cycle_step_witness:
  "exec [Step 1, Step 1, Step 1, Step 1, Step 1, Step 1, Step 1]
     \<lparr>lock = False, me = 1, done_ch = 0, closed = {}, nchan = 1,
       threads = [Run_Ret, TR_InCall, Wait_Recv 0], started = 1, finished = 0, crashed = False\<rparr> =
   Some \<lparr>lock = False, me = 0, done_ch = 1, closed = {0}, nchan = 2,
       threads = [Run_Ret, TR_Ret, Wait_Recv 0], started = 1, finished = 1, crashed = False\<rparr> \<and>
   exec [Step 1, Step 1, Step 1, Step 1, Step 1, Step 1]
     \<lparr>lock = False, me = 3, done_ch = 0, closed = {}, nchan = 1,
       threads = [Run_Ret, TR_InCall, Run_Ret], started = 1, finished = 0, crashed = False\<rparr> =
   Some \<lparr>lock = False, me = 1, done_ch = 0, closed = {}, nchan = 1,
       threads = [Run_Ret, TR_InCall, Run_Ret], started = 2, finished = 1, crashed = False\<rparr>"
proof -
  have e1: "exec [Call_Run, Step 0, Step 0, Step 0, Step 0, Step 0, Step 1, Call_Wait, Step 2]
      NewRescheduler =
     Some \<lparr>lock = False, me = 1, done_ch = 0, closed = {}, nchan = 1,
       threads = [Run_Ret, TR_InCall, Wait_Recv 0], started = 1, finished = 0, crashed = False\<rparr>"
    by (simp add: NewRescheduler_def defs)
  have e2: "exec [Call_Run, Step 0, Step 0, Step 0, Step 0, Step 0, Step 1, Call_Run, Step 2,
         Step 2, Step 2, Step 2] NewRescheduler =
     Some \<lparr>lock = False, me = 3, done_ch = 0, closed = {}, nchan = 1,
       threads = [Run_Ret, TR_InCall, Run_Ret], started = 1, finished = 0, crashed = False\<rparr>"
    by (simp add: NewRescheduler_def defs)
  from threadRun_cycle_step [OF e1, of 1] threadRun_cycle_step [OF e2, of 1]
  show ?thesis by (simp add: R_RUNNING_def R_RERUN_def)
qed


section \<open>\<^verbatim>\<open>Run\<close> cannot fail and does not block\<close>

lemma Run_completes:
  assumes "invar s" "r < length (threads s)" "in_Run (threads s ! r)"
    and "threads s ! r = Run_Lock \<longrightarrow> \<not> lock s"
  shows "\<exists>n\<le>5. \<exists>s'. exec (replicate n (Step r)) s = Some s' \<and> threads s' ! r = Run_Ret \<and> \<not> crashed s'"
proof -
  note at = invar_at [OF assms(1,2) refl]
  show ?thesis
  proof (cases "threads s ! r")
    case Run_Lock
    show ?thesis
    proof (cases "me s AND R_RUNNING = 1")
      case True
      with Run_Lock assms at(5) show ?thesis
        by (intro exI [of _ 4]) (simp add: eval_nat_numeral defs)
    next
      case False
      with Run_Lock assms at(5) show ?thesis
        by (intro exI [of _ 5]) (simp add: eval_nat_numeral defs nth_append)
    qed
  next
    case Run_Check
    show ?thesis
    proof (cases "me s AND R_RUNNING = 1")
      case True
      with Run_Check assms at show ?thesis
        by (intro exI [of _ 3]) (simp add: eval_nat_numeral defs)
    next
      case False
      with Run_Check assms at show ?thesis
        by (intro exI [of _ 4]) (simp add: eval_nat_numeral defs nth_append)
    qed
  next
    case Run_SetRerun
    with assms at show ?thesis
      by (intro exI [of _ 2]) (simp add: eval_nat_numeral defs)
  next
    case Run_Unlock1
    with assms at show ?thesis
      by (intro exI [of _ 1]) (simp add: eval_nat_numeral defs)
  next
    case Run_SetRunning
    with assms at show ?thesis
      by (intro exI [of _ 3]) (simp add: eval_nat_numeral defs nth_append)
  next
    case Run_Unlock2
    with assms at show ?thesis
      by (intro exI [of _ 2]) (simp add: eval_nat_numeral defs nth_append)
  next
    case Run_Go
    with assms at show ?thesis
      by (intro exI [of _ 1]) (simp add: eval_nat_numeral defs nth_append)
  qed (use assms in simp_all)
qed


lemma lock_released:
  assumes "invar s" "h < length (threads s)" "holds_lock (threads s ! h)"
  shows "\<exists>n\<le>5. \<exists>s'. exec (replicate n (Step h)) s = Some s' \<and> \<not> lock s' \<and> \<not> crashed s'"
proof -
  note at = invar_at [OF assms(1,2) refl]
  have op: "threads s ! h \<noteq> TR_Make \<Longrightarrow> done_ch s \<notin> closed s"
    using invar_open [OF assms(1)] assms(2,3) by blast
  show ?thesis
  proof (cases "threads s ! h")
    case Run_Check
    with assms at show ?thesis
      by (intro exI [of _ 3]) (simp add: eval_nat_numeral defs)
  next
    case Run_SetRerun
    with assms at show ?thesis
      by (intro exI [of _ 2]) (simp add: eval_nat_numeral defs)
  next
    case Run_Unlock1
    with assms at show ?thesis
      by (intro exI [of _ 1]) (simp add: eval_nat_numeral defs)
  next
    case Run_SetRunning
    with assms at show ?thesis
      by (intro exI [of _ 2]) (simp add: eval_nat_numeral defs)
  next
    case Run_Unlock2
    with assms at show ?thesis
      by (intro exI [of _ 1]) (simp add: eval_nat_numeral defs)
  next
    case TR_Check
    show ?thesis
    proof (cases "me s AND R_RERUN = 0")
      case True
      with TR_Check assms at op show ?thesis
        by (intro exI [of _ 5]) (simp add: eval_nat_numeral defs)
    next
      case False
      with TR_Check assms at show ?thesis
        by (intro exI [of _ 3]) (simp add: eval_nat_numeral defs)
    qed
  next
    case TR_Clear
    with assms at op show ?thesis
      by (intro exI [of _ 4]) (simp add: eval_nat_numeral defs)
  next
    case TR_Close
    with assms at op show ?thesis
      by (intro exI [of _ 3]) (simp add: eval_nat_numeral defs)
  next
    case TR_Make
    with assms at show ?thesis
      by (intro exI [of _ 2]) (simp add: eval_nat_numeral defs)
  next
    case TR_Unlock1
    with assms at show ?thesis
      by (intro exI [of _ 1]) (simp add: eval_nat_numeral defs)
  next
    case TR_Flip
    with assms at show ?thesis
      by (intro exI [of _ 2]) (simp add: eval_nat_numeral defs)
  next
    case TR_Unlock2
    with assms at show ?thesis
      by (intro exI [of _ 1]) (simp add: eval_nat_numeral defs)
  qed (use assms in simp_all)
qed

text \<open>
  Claim C8. In every reachable state no panic or fatal error has happened, and a goroutine
  inside \<^verbatim>\<open>Run\<close> that is not waiting for a held mutex returns after at most five steps of
  its own, each of which is enabled whatever the other goroutines do in between its
  critical section. The only place where \<^verbatim>\<open>Run\<close> can wait is \<^verbatim>\<open>Lock\<close>, and then the holder
  of the mutex releases it after at most five steps of its own, none of which can block:
  the critical sections are short and contain no wait.
\<close>

theorem Run_total_nonblocking:
  assumes "exec as NewRescheduler = Some s" and "r < length (threads s)"
    and "in_Run (threads s ! r)"
  shows "\<not> crashed s \<and>
         (threads s ! r \<noteq> Run_Lock \<or> \<not> lock s \<longrightarrow>
            (\<exists>n\<le>5. \<exists>s'. exec (replicate n (Step r)) s = Some s' \<and>
               threads s' ! r = Run_Ret \<and> \<not> crashed s')) \<and>
         (threads s ! r = Run_Lock \<and> lock s \<longrightarrow>
            (\<exists>h<length (threads s). holds_lock (threads s ! h) \<and>
               (\<exists>n\<le>5. \<exists>s'. exec (replicate n (Step h)) s = Some s' \<and>
                  \<not> lock s' \<and> \<not> crashed s')))"
proof -
  have I: "invar s" by (rule reach_invar [OF assms(1)])
  have 1: "\<not> crashed s" using I by (simp add: invar_def)
  have 2: "\<exists>n\<le>5. \<exists>s'. exec (replicate n (Step r)) s = Some s' \<and>
               threads s' ! r = Run_Ret \<and> \<not> crashed s'"
    if "threads s ! r \<noteq> Run_Lock \<or> \<not> lock s"
    using Run_completes [OF I assms(2,3)] that by blast
  have 3: "\<exists>h<length (threads s). holds_lock (threads s ! h) \<and>
               (\<exists>n\<le>5. \<exists>s'. exec (replicate n (Step h)) s = Some s' \<and>
                  \<not> lock s' \<and> \<not> crashed s')"
    if "lock s"
  proof -
    from I that have "0 < cnt holds_lock (threads s)"
      by (simp add: invar_def inv_lock_def)
    then obtain h where h: "h < length (threads s)" "holds_lock (threads s ! h)"
      using cnt_ex by blast
    with lock_released [OF I h] show ?thesis by blast
  qed
  from 1 2 3 show ?thesis by blast
qed

theorem Run_total_nonblocking_witness:
  "(\<exists>n\<le>5. \<exists>s'. exec (replicate n (Step 0))
       \<lparr>lock = False, me = 0, done_ch = 0, closed = {}, nchan = 1,
         threads = [Run_Lock, Run_Lock], started = 0, finished = 0, crashed = False\<rparr> = Some s' \<and>
      threads s' ! 0 = Run_Ret \<and> \<not> crashed s') \<and>
   (\<exists>h<2. holds_lock ([Run_Lock, Run_Check] ! h) \<and>
      (\<exists>n\<le>5. \<exists>s'. exec (replicate n (Step h))
          \<lparr>lock = True, me = 0, done_ch = 0, closed = {}, nchan = 1,
            threads = [Run_Lock, Run_Check], started = 0, finished = 0, crashed = False\<rparr> = Some s' \<and>
         \<not> lock s' \<and> \<not> crashed s'))"
proof -
  have e1: "exec [Call_Run, Call_Run] NewRescheduler =
     Some \<lparr>lock = False, me = 0, done_ch = 0, closed = {}, nchan = 1,
         threads = [Run_Lock, Run_Lock], started = 0, finished = 0, crashed = False\<rparr>"
    by (simp add: NewRescheduler_def defs)
  have e2: "exec [Call_Run, Call_Run, Step 1] NewRescheduler =
     Some \<lparr>lock = True, me = 0, done_ch = 0, closed = {}, nchan = 1,
         threads = [Run_Lock, Run_Check], started = 0, finished = 0, crashed = False\<rparr>"
    by (simp add: NewRescheduler_def defs)
  from Run_total_nonblocking [OF e1, of 0] Run_total_nonblocking [OF e2, of 0]
  show ?thesis by (simp add: numeral_2_eq_2)
qed

section \<open>\<^verbatim>\<open>Wait\<close> on an idle instance\<close>

lemma idle_quiet:
  assumes "invar s" "me s = 0" "\<not> lock s" "cnt in_Run (threads s) = 0"
  shows "list_all quiet (threads s)"
proof -
  from assms have "cnt owner (threads s) = 0" "cnt holds_lock (threads s) = 0"
    by (simp_all add: invar_def inv_owner_def inv_lock_def)
  with assms(4) have "\<not> owner p \<and> \<not> holds_lock p \<and> \<not> in_Run p" if "p \<in> set (threads s)" for p
    using that by (simp add: cnt_zero)
  moreover have "quiet p" if "\<not> owner p \<and> \<not> holds_lock p \<and> \<not> in_Run p" for p
    using that by (cases p) simp_all
  ultimately show ?thesis by (simp add: list_all_iff)
qed

lemma quiet_fire:
  assumes "fire a s = Some s'" "a \<noteq> Call_Run" "\<not> crashed s" "list_all quiet (threads s)"
    and "w < length (threads s)" "threads s ! w = Wait_Read \<or> threads s ! w = Wait_Recv d"
    and "d = done_ch s" "d \<notin> closed s"
  shows "\<not> crashed s' \<and> list_all quiet (threads s') \<and> w < length (threads s') \<and>
         (threads s' ! w = Wait_Read \<or> threads s' ! w = Wait_Recv d) \<and>
         d = done_ch s' \<and> d \<notin> closed s'"
proof (cases a)
  case Call_Run
  with assms show ?thesis by simp
next
  case Call_Wait
  with assms show ?thesis by (auto simp: nth_append split: if_splits)
next
  case (Step i)
  with assms(1) obtain p where p: "i < length (threads s)" "threads s ! i = p" "instr p i s = Some s'"
    by (auto elim: step_cases)
  from p(1,2) assms(4) have "quiet p" by (auto simp: list_all_length)
  with p assms(3-) show ?thesis
    by (cases p) (auto simp: goto_def list_all_update nth_list_update split: if_splits)
qed

lemma quiet_exec:
  assumes "exec bs s = Some s'" "Call_Run \<notin> set bs" "\<not> crashed s" "list_all quiet (threads s)"
    and "w < length (threads s)" "threads s ! w = Wait_Read \<or> threads s ! w = Wait_Recv d"
    and "d = done_ch s" "d \<notin> closed s"
  shows "w < length (threads s') \<and> (threads s' ! w = Wait_Read \<or> threads s' ! w = Wait_Recv d) \<and>
         d \<notin> closed s' \<and> \<not> crashed s'"
  using assms
proof (induction bs arbitrary: s)
  case Nil
  then show ?case by simp
next
  case (Cons a bs)
  from Cons.prems(1) obtain t where t: "fire a s = Some t" "exec bs t = Some s'"
    by (auto split: option.splits)
  from Cons.prems(2) have a: "a \<noteq> Call_Run" "Call_Run \<notin> set bs" by auto
  from quiet_fire [OF t(1) a(1) Cons.prems(3-)]
  show ?case by (intro Cons.IH [OF t(2) a(2)]) auto
qed

text \<open>
  Claim C3, as the code has it. \<^verbatim>\<open>Wait\<close> does not look at \<open>me\<close>: it receives from the current
  channel, and \<^verbatim>\<open>NewRescheduler\<close> and line 76 both install a channel that is not closed. So a
  \<^verbatim>\<open>Wait\<close> that begins while the instance is idle (\<open>me = 0\<close>, mutex free, no call of \<^verbatim>\<open>Run\<close>
  under way) does not return as long as \<^verbatim>\<open>Run\<close> is not called: whatever the other goroutines
  do, it is still about to read \<^verbatim>\<open>r.done\<close>, or it is blocked in the receive on the channel
  that was current when it began. It is released only by the end of a later run.
\<close>

theorem Wait_blocks_while_idle:
  assumes "exec as NewRescheduler = Some s" and "me s = 0" and "\<not> lock s"
    and "cnt in_Run (threads s) = 0" and "w = length (threads s)"
    and "exec (Call_Wait # bs) s = Some s'" and "Call_Run \<notin> set bs"
  shows "threads s' ! w = Wait_Read \<or> (threads s' ! w = Wait_Recv (done_ch s) \<and> step w s' = None)"
proof -
  have I: "invar s" by (rule reach_invar [OF assms(1)])
  then have nc: "\<not> crashed s" by (simp add: invar_def)
  have q: "list_all quiet (threads s)" by (rule idle_quiet [OF I assms(2-4)])
  have op: "done_ch s \<notin> closed s" using invar_open [OF I] assms(3) by simp
  let ?t = "s\<lparr>threads := threads s @ [Wait_Read]\<rparr>"
  from assms(6) nc have e: "exec bs ?t = Some s'" by simp
  have "w < length (threads s') \<and> (threads s' ! w = Wait_Read \<or> threads s' ! w = Wait_Recv (done_ch s)) \<and>
         done_ch s \<notin> closed s' \<and> \<not> crashed s'"
    using nc q op assms(5) by (intro quiet_exec [OF e assms(7)]) simp_all
  then show ?thesis by (auto simp: step_def)
qed

theorem Wait_blocks_while_idle_witness:
  "threads \<lparr>lock = False, me = 0, done_ch = 0, closed = {}, nchan = 1,
       threads = [Wait_Recv 0, Wait_Read], started = 0, finished = 0, crashed = False\<rparr> ! 0 = Wait_Recv 0 \<and>
   step 0 \<lparr>lock = False, me = 0, done_ch = 0, closed = {}, nchan = 1,
       threads = [Wait_Recv 0, Wait_Read], started = 0, finished = 0, crashed = False\<rparr> = None"
proof -
  have e1: "exec [] NewRescheduler = Some NewRescheduler" by simp
  have e2: "exec (Call_Wait # [Step 0, Call_Wait]) NewRescheduler =
    Some \<lparr>lock = False, me = 0, done_ch = 0, closed = {}, nchan = 1,
       threads = [Wait_Recv 0, Wait_Read], started = 0, finished = 0, crashed = False\<rparr>"
    by (simp add: NewRescheduler_def defs)
  have h: "me NewRescheduler = 0" "\<not> lock NewRescheduler" "cnt in_Run (threads NewRescheduler) = 0"
    "0 = length (threads NewRescheduler)" "Call_Run \<notin> set [Step 0, Call_Wait]"
    by (simp_all add: NewRescheduler_def)
  from Wait_blocks_while_idle [OF e1 h(1-4) e2 h(5)] show ?thesis
    by (simp add: NewRescheduler_def)
qed

text \<open>
  The claim as stated fails on a fresh instance: after \<^verbatim>\<open>NewRescheduler\<close>, a goroutine that
  calls \<^verbatim>\<open>Wait\<close> reads channel 0 and is then blocked in the receive, and it is the only
  goroutine there is, so nothing will ever close the channel.
\<close>

theorem Wait_on_fresh_instance_blocks:
  "exec [Call_Wait, Step 0] NewRescheduler =
     Some \<lparr>lock = False, me = 0, done_ch = 0, closed = {}, nchan = 1,
            threads = [Wait_Recv 0], started = 0, finished = 0, crashed = False\<rparr> \<and>
   step 0 \<lparr>lock = False, me = 0, done_ch = 0, closed = {}, nchan = 1,
            threads = [Wait_Recv 0], started = 0, finished = 0, crashed = False\<rparr> = None"
  by (simp add: NewRescheduler_def defs)

section \<open>Requests, and what a returning \<^verbatim>\<open>Wait\<close> has seen\<close>

subsection \<open>The promise is kept by every step\<close>

lemma safe_free: "\<not> owner p \<Longrightarrow> \<not> holds_lock p \<Longrightarrow> safe m f p"
  by (cases p) simp_all

lemma safe_3: "safe m f p \<Longrightarrow> safe 3 f p"
  by (cases p) simp_all

lemma safe_not3: "safe m f p \<Longrightarrow> m \<noteq> 3 \<Longrightarrow> safe m' f p"
  by (cases p) simp_all

lemma safe_fresh: "safe m f p \<Longrightarrow> safe m True p"
  by (cases p) simp_all

lemma list_all_mono: "list_all P xs \<Longrightarrow> (\<And>x. P x \<Longrightarrow> Q x) \<Longrightarrow> list_all Q xs"
  by (auto simp: list_all_iff)

lemma others_idle:
  assumes "invar s" "i < length (threads s)" "holds_lock (threads s ! i)" "owner (threads s ! i)"
    and "x \<in> set ((threads s)[i := y])"
  shows "x = y \<or> (\<not> holds_lock x \<and> \<not> owner x)"
proof -
  from assms(1) have L: "cnt holds_lock (threads s) \<le> 1" and O: "cnt owner (threads s) \<le> 1"
    by (simp_all add: invar_def inv_lock_def inv_owner_def)
  from set_update_cases [OF assms(5)] show ?thesis
  proof
    assume "\<exists>j<length (threads s). j \<noteq> i \<and> threads s ! j = x"
    then obtain j where j: "j < length (threads s)" "j \<noteq> i" "threads s ! j = x" by blast
    with cnt_unique [OF L assms(2) j(1) assms(3)] cnt_unique [OF O assms(2) j(1) assms(4)] 
    show ?thesis by auto
  qed simp
qed

lemma safe_update_idle:
  assumes "invar s" "i < length (threads s)" "holds_lock (threads s ! i)" "owner (threads s ! i)"
    and "safe m f y"
  shows "list_all (safe m f) ((threads s)[i := y])"
  unfolding list_all_iff using others_idle [OF assms(1-4)] assms(5) safe_free by blast

lemma invar_incall_le: "invar s \<Longrightarrow> cnt (\<lambda>p. p = TR_InCall) (threads s) \<le> 1"
proof -
  assume "invar s"
  then have "cnt owner (threads s) \<le> 1"
    by (simp add: invar_def inv_owner_def)
  moreover have "cnt (\<lambda>p. p = TR_InCall) (threads s) \<le> cnt owner (threads s)"
    by (rule cnt_mono) simp
  ultimately show ?thesis by simp
qed

lemma in_call_count:
  assumes "invar s" "i < length (threads s)" "threads s ! i = TR_InCall"
  shows "started s = finished s + 1"
proof -
  have "0 < cnt (\<lambda>p. p = TR_InCall) (threads s)"
    using assms by (intro cnt_pos [of i]) simp_all
  with invar_incall_le [OF assms(1)] assms(1) show ?thesis
    by (simp add: invar_def inv_count_def)
qed

lemma obl_step:
  assumes "step i s = Some s'" "invar s" "n \<le> started s" "obl n s"
  shows "obl n s'"
proof -
  from assms(1) obtain p where p: "i < length (threads s)" "threads s ! i = p" "instr p i s = Some s'"
    by (rule step_cases)
  note at = invar_at [OF assms(2) p(1,2)]
  show ?thesis
  proof (cases "n < finished s")
    case True
    with p at show ?thesis
      by (cases p) (auto simp: obl_def goto_def do_lock_def do_unlock_def split: if_splits)
  next
    case False
    with assms(4) have A: "list_all (safe (me s) (n < started s)) (threads s)"
      by (simp add: obl_def)
    with p(1,2) have sp: "safe (me s) (n < started s) p"
      by (auto simp: list_all_length)
    have A3: "list_all (safe 3 (n < started s)) (threads s)"
      by (rule list_all_mono [OF A]) (rule safe_3)
    have A1: "me s \<noteq> 3 \<Longrightarrow> list_all (safe m' (n < started s)) (threads s)" for m'
      by (rule list_all_mono [OF A]) (rule safe_not3)
    have AT: "list_all (safe (me s) True) (threads s)"
      by (rule list_all_mono [OF A]) (rule safe_fresh)
    note idle = safe_update_idle [OF assms(2) p(1)]
    note ic = in_call_count [OF assms(2) p(1)]
    show ?thesis
      using p at sp A A3 A1 AT assms(3) False ic
      by (cases p) (auto simp: obl_def goto_def do_lock_def do_unlock_def R_RUNNING_def R_RERUN_def
          list_all_update idle split: if_splits)
  qed
qed

subsection \<open>A request before and after its write\<close>

lemma step_mono:
  assumes "step i s = Some s'"
  shows "started s \<le> started s' \<and> finished s \<le> finished s' \<and> length (threads s) \<le> length (threads s') \<and>
         closed s \<subseteq> closed s' \<and> nchan s \<le> nchan s'"
proof -
  from assms obtain p where p: "i < length (threads s)" "threads s ! i = p" "instr p i s = Some s'"
    by (rule step_cases)
  then show ?thesis
    by (cases p) (auto simp: goto_def do_lock_def do_unlock_def split: if_splits)
qed

lemma step_other:
  assumes "step i s = Some s'" "j \<noteq> i" "j < length (threads s)"
  shows "threads s' ! j = threads s ! j"
proof -
  from assms obtain p where p: "i < length (threads s)" "threads s ! i = p" "instr p i s = Some s'"
    by (auto elim: step_cases)
  with assms(2,3) show ?thesis
    by (cases p) (auto simp: goto_def do_lock_def do_unlock_def nth_append split: if_splits)
qed

lemma safe_3_free: "\<not> holds_lock p \<Longrightarrow> safe 3 f p"
  by (cases p) simp_all

lemma obl_write:
  assumes "step i s = Some s'" "invar s" "i < length (threads s)"
    and "threads s ! i = Run_SetRerun \<or> threads s ! i = Run_SetRunning"
  shows "obl n s' \<and> me s' \<noteq> 0"
proof -
  note at = invar_at [OF assms(2,3) refl]
  note fr = others_free [OF assms(2,3)]
  from assms(4) show ?thesis
  proof
    assume p: "threads s ! i = Run_SetRerun"
    with fr have "x = Run_Unlock1 \<or> \<not> holds_lock x" if "x \<in> set ((threads s)[i := Run_Unlock1])" for x
      using that by auto
    then have "safe 3 f x" if "x \<in> set ((threads s)[i := Run_Unlock1])" for x f
      using that safe_3_free [of x f] by (cases "x = Run_Unlock1") auto
    then have "list_all (safe 3 f) ((threads s)[i := Run_Unlock1])" for f
      unfolding list_all_iff by blast
    with p assms(1-3) at show ?thesis
      by (auto simp: step_def obl_def goto_def R_RERUN_def)
  next
    assume p: "threads s ! i = Run_SetRunning"
    with at have "me s = 0" by simp
    with assms(2) have "cnt owner (threads s) = 0" by (simp add: invar_def inv_owner_def)
    then have no: "\<not> owner x" if "x \<in> set (threads s)" for x
      using that by (simp add: cnt_zero)
    from p fr have "x = Run_Unlock2 \<or> (\<not> holds_lock x \<and> x \<in> set (threads s))" 
      if "x \<in> set ((threads s)[i := Run_Unlock2])" for x
      using that by auto
    with no have "safe m f x" if "x \<in> set ((threads s)[i := Run_Unlock2])" for x m f
      using that safe_free [of x m f] by (cases "x = Run_Unlock2") auto
    then have "list_all (safe m f) ((threads s)[i := Run_Unlock2])" for m f
      unfolding list_all_iff by blast
    with p assms(1-3) at show ?thesis
      by (auto simp: step_def obl_def goto_def R_RUNNING_def)
  qed
qed

lemma busy_step:
  assumes "step i s = Some s'" "invar s" "obl n s" "n < finished s \<or> me s \<noteq> 0"
  shows "n < finished s' \<or> me s' \<noteq> 0"
proof (cases "n < finished s")
  case True
  with step_mono [OF assms(1)] show ?thesis by simp
next
  case False
  with assms have m: "me s \<noteq> 0" and A: "list_all (safe (me s) (n < started s)) (threads s)"
    by (simp_all add: obl_def)
  from assms(1) obtain p where p: "i < length (threads s)" "threads s ! i = p" "instr p i s = Some s'"
    by (rule step_cases)
  note at = invar_at [OF assms(2) p(1,2)]
  from A p(1,2) have sp: "safe (me s) (n < started s) p"
    by (auto simp: list_all_length)
  from p at sp m show ?thesis
    by (cases p) (auto simp: goto_def do_lock_def do_unlock_def R_RUNNING_def R_RERUN_def split: if_splits)
qed

lemma step_after_write:
  assumes "step i s = Some s'" "r < length (threads s)" "after_write (threads s ! r)"
  shows "after_write (threads s' ! r)"
proof (cases "i = r")
  case False
  with step_other [OF assms(1) _ assms(2)] assms(3) show ?thesis by simp
next
  case True
  from assms(1) obtain p where p: "i < length (threads s)" "threads s ! i = p" "instr p i s = Some s'"
    by (rule step_cases)
  with True assms(3) show ?thesis
    by (cases p) (auto simp: goto_def do_lock_def do_unlock_def nth_append split: if_splits)
qed

lemma served_step:
  assumes "step i s = Some s'" "invar s" "served n r s"
  shows "served n r s'"
proof -
  from assms(3) have r: "r < length (threads s)" "after_write (threads s ! r)" "n \<le> started s"
    "obl n s" "n < finished s \<or> me s \<noteq> 0"
    by (simp_all add: served_def)
  from step_mono [OF assms(1)] r(1,3) step_after_write [OF assms(1) r(1,2)]
    obl_step [OF assms(1,2) r(3,4)] busy_step [OF assms(1,2) r(4,5)]
  show ?thesis by (simp add: served_def)
qed

lemma pending_step:
  assumes "step i s = Some s'" "invar s" "pending n r s"
  shows "pending n r s' \<or> served n r s'"
proof -
  from assms(3) have r: "r < length (threads s)" "before_write (threads s ! r)" "n \<le> started s"
    by (simp_all add: pending_def)
  note mono = step_mono [OF assms(1)]
  show ?thesis
  proof (cases "i = r")
    case False
    with step_other [OF assms(1) _ r(1)] r mono show ?thesis
      by (simp add: pending_def)
  next
    case True
    from assms(1) obtain p where p: "i < length (threads s)" "threads s ! i = p" "instr p i s = Some s'"
      by (rule step_cases)
    show ?thesis
    proof (cases "p = Run_SetRerun \<or> p = Run_SetRunning")
      case False
      with p True r mono show ?thesis
        by (cases p) (auto simp: pending_def goto_def do_lock_def split: if_splits)
    next
      case w: True
      with p have "threads s ! i = Run_SetRerun \<or> threads s ! i = Run_SetRunning" by simp
      from obl_write [OF assms(1,2) p(1) this, of n]
      have "obl n s'" "me s' \<noteq> 0" by simp_all
      moreover have "after_write (threads s' ! r)"
        using w p True by (auto simp: goto_def)
      ultimately show ?thesis
        using mono r by (simp add: served_def)
    qed
  qed
qed

lemma append_served:
  assumes "served n r s" "safe (me s) (n < started s) q"
  shows "served n r (s\<lparr>threads := threads s @ [q]\<rparr>)"
  using assms by (auto simp: served_def obl_def nth_append)

lemma append_pending:
  assumes "pending n r s"
  shows "pending n r (s\<lparr>threads := threads s @ [q]\<rparr>)"
  using assms by (auto simp: pending_def nth_append)

lemma served_fire:
  assumes "fire a s = Some s'" "invar s" "served n r s"
  shows "served n r s'"
proof (cases a)
  case Call_Run
  with assms(1) append_served [OF assms(3), of Run_Lock] show ?thesis
    by (auto split: if_splits)
next
  case Call_Wait
  with assms(1) append_served [OF assms(3), of Wait_Read] show ?thesis
    by (auto split: if_splits)
next
  case (Step i)
  with assms show ?thesis by (simp add: served_step)
qed

lemma pending_fire:
  assumes "fire a s = Some s'" "invar s" "pending n r s \<or> served n r s"
  shows "pending n r s' \<or> served n r s'"
proof (cases "served n r s")
  case True
  with served_fire [OF assms(1,2)] show ?thesis by simp
next
  case False
  with assms(3) have P: "pending n r s" by simp
  show ?thesis
  proof (cases a)
    case Call_Run
    with assms(1) append_pending [OF P, of Run_Lock] show ?thesis
      by (auto split: if_splits)
  next
    case Call_Wait
    with assms(1) append_pending [OF P, of Wait_Read] show ?thesis
      by (auto split: if_splits)
  next
    case (Step i)
    with assms P show ?thesis by (simp add: pending_step)
  qed
qed

lemma pending_exec:
  "exec bs s = Some s' \<Longrightarrow> invar s \<Longrightarrow> pending n r s \<or> served n r s \<Longrightarrow>
   pending n r s' \<or> served n r s'"
proof (induction bs arbitrary: s)
  case Nil
  then show ?case by simp
next
  case (Cons a bs)
  from Cons.prems(1) obtain t where t: "fire a s = Some t" "exec bs t = Some s'"
    by (auto split: option.splits)
  from fire_invar [OF t(1) Cons.prems(2)] pending_fire [OF t(1) Cons.prems(2,3)]
  show ?case by (rule Cons.IH [OF t(2)])
qed

subsection \<open>A goroutine inside \<^verbatim>\<open>Wait\<close>\<close>

lemma wait_ok_mono:
  "wait_ok g d0 n0 C p \<Longrightarrow> (g \<Longrightarrow> g') \<Longrightarrow> (C' = C \<or> g') \<Longrightarrow> wait_ok g' d0 n0 C' p"
  by (cases p) auto

lemma obl_leaving:
  assumes "obl n s" "i < length (threads s)" "leaving (threads s ! i)"
  shows "n < finished s"
proof (rule ccontr)
  assume "\<not> n < finished s"
  with assms(1) have "list_all (safe (me s) (n < started s)) (threads s)"
    by (simp add: obl_def)
  with assms(2) have "safe (me s) (n < started s) (threads s ! i)"
    by (simp add: list_all_length)
  with assms(3) show False by (cases "threads s ! i") simp_all
qed

lemma obl_closed_done:
  assumes "invar s" "obl n s" "done_ch s \<in> closed s"
  shows "n < finished s"
proof -
  from assms(1,3) have "0 < cnt (\<lambda>p. p = TR_Make) (threads s)"
    by (simp add: invar_def inv_chan_def)
  then obtain i where "i < length (threads s)" "threads s ! i = TR_Make"
    using cnt_ex by blast
  then show ?thesis by (intro obl_leaving [OF assms(2), of i]) simp_all
qed

lemma waits_ch:
  assumes "i < length (threads s)" "threads s ! i = p" "instr p i s = Some s'"
    and "done_ch s = d0 \<or> n0 \<le> done_ch s" "n0 \<le> nchan s"
  shows "(done_ch s' = d0 \<or> n0 \<le> done_ch s') \<and> n0 \<le> nchan s'"
  using assms by (cases p) (auto simp: goto_def do_lock_def do_unlock_def split: if_splits)

lemma waits_self:
  assumes "w < length (threads s)" "instr (threads s ! w) w s = Some s'"
    and "wait_ok g d0 n0 (closed s) (threads s ! w)"
    and "done_ch s = d0 \<or> n0 \<le> done_ch s" "done_ch s \<in> closed s \<longrightarrow> g"
  shows "wait_ok g d0 n0 (closed s') (threads s' ! w)"
  using assms by (cases "threads s ! w") (auto simp: goto_def split: if_splits)

lemma waits_closed:
  assumes "i < length (threads s)" "threads s ! i = p" "instr p i s = Some s'" "p \<noteq> TR_Close"
  shows "closed s' = closed s"
  using assms by (cases p) (auto simp: goto_def do_lock_def do_unlock_def split: if_splits)

lemma waits_step:
  assumes "step i s = Some s'" "invar s" "obl n s" "waits n d0 n0 w s"
  shows "waits n d0 n0 w s'"
proof -
  from assms(4) have w: "w < length (threads s)"
    "wait_ok (n < finished s) d0 n0 (closed s) (threads s ! w)"
    "done_ch s = d0 \<or> n0 \<le> done_ch s" "n0 \<le> nchan s"
    by (simp_all add: waits_def)
  from assms(1) obtain p where p: "i < length (threads s)" "threads s ! i = p" "instr p i s = Some s'"
    by (rule step_cases)
  note mono = step_mono [OF assms(1)]
  note ch = waits_ch [OF p w(3,4)]
  have g: "n < finished s \<Longrightarrow> n < finished s'" using mono by simp
  have "wait_ok (n < finished s') d0 n0 (closed s') (threads s' ! w)"
  proof (cases "i = w")
    case True
    have d: "done_ch s \<in> closed s \<longrightarrow> n < finished s"
      using obl_closed_done [OF assms(2,3)] by blast
    from p True have "instr (threads s ! w) w s = Some s'" by simp
    from waits_self [OF w(1) this w(2,3) d]
    have "wait_ok (n < finished s) d0 n0 (closed s') (threads s' ! w)" .
    then show ?thesis by (rule wait_ok_mono) (simp_all add: g)
  next
    case False
    with step_other [OF assms(1) _ w(1)] have same: "threads s' ! w = threads s ! w" by simp
    have c: "closed s' = closed s \<or> n < finished s'"
    proof (cases "p = TR_Close")
      case True
      with p have "n < finished s" by (intro obl_leaving [OF assms(3), of i]) simp_all
      with g show ?thesis by simp
    next
      case False
      from waits_closed [OF p this] show ?thesis by simp
    qed
    from w(2) have "wait_ok (n < finished s') d0 n0 (closed s') (threads s ! w)"
      by (rule wait_ok_mono) (simp_all add: g c)
    with same show ?thesis by simp
  qed
  with ch w(1) mono show ?thesis by (simp add: waits_def)
qed

lemma waits_fire:
  assumes "fire a s = Some s'" "invar s" "obl n s" "waits n d0 n0 w s"
  shows "waits n d0 n0 w s'"
proof (cases a)
  case Call_Run
  with assms show ?thesis by (auto simp: waits_def nth_append split: if_splits)
next
  case Call_Wait
  with assms show ?thesis by (auto simp: waits_def nth_append split: if_splits)
next
  case (Step i)
  with assms show ?thesis by (simp add: waits_step)
qed

lemma obl_fire:
  assumes "fire a s = Some s'" "invar s" "n \<le> started s" "obl n s"
  shows "obl n s' \<and> n \<le> started s'"
proof (cases a)
  case Call_Run
  with assms show ?thesis by (auto simp: obl_def split: if_splits)
next
  case Call_Wait
  with assms show ?thesis by (auto simp: obl_def split: if_splits)
next
  case (Step i)
  with assms step_mono [of i s s'] show ?thesis by (simp add: obl_step)
qed

lemma waits_exec:
  "exec bs s = Some s' \<Longrightarrow> invar s \<Longrightarrow> n \<le> started s \<Longrightarrow> obl n s \<Longrightarrow> waits n d0 n0 w s \<Longrightarrow>
   waits n d0 n0 w s'"
proof (induction bs arbitrary: s)
  case Nil
  then show ?case by simp
next
  case (Cons a bs)
  from Cons.prems(1) obtain t where t: "fire a s = Some t" "exec bs t = Some s'"
    by (auto split: option.splits)
  from obl_fire [OF t(1) Cons.prems(2,3,4)] have "n \<le> started t" "obl n t" by simp_all
  with fire_invar [OF t(1) Cons.prems(2)] waits_fire [OF t(1) Cons.prems(2,4,5)]
  show ?case by (intro Cons.IH [OF t(2)])
qed

lemma waits_Ret:
  assumes "waits n d0 n0 w s" "threads s ! w = Wait_Ret c"
  shows "n < finished s \<and> (c = d0 \<or> n0 \<le> c)"
  using assms by (simp add: waits_def)

lemma invar_Ret_closed:
  assumes "invar s" "w < length (threads s)" "threads s ! w = Wait_Ret c"
  shows "c \<in> closed s"
proof -
  from assms(1) have "list_all (recv_ok (closed s)) (threads s)"
    by (simp add: invar_def inv_chan_def)
  with assms(2) have "recv_ok (closed s) (threads s ! w)" by (simp add: list_all_length)
  with assms(3) show ?thesis by simp
qed

lemma idle_obl:
  assumes "invar s" "me s = 0" "\<not> lock s"
  shows "obl n s" and "started s = finished s"
proof -
  from assms have c: "cnt owner (threads s) = 0" "cnt holds_lock (threads s) = 0"
    by (simp_all add: invar_def inv_owner_def inv_lock_def)
  then have "safe m f p" if "p \<in> set (threads s)" for p m f
    using that by (intro safe_free) (simp_all add: cnt_zero)
  then show "obl n s" by (simp add: obl_def list_all_iff)
  have "cnt (\<lambda>p. p = TR_InCall) (threads s) \<le> cnt owner (threads s)"
    by (rule cnt_mono) simp
  with c assms(1) show "started s = finished s"
    by (simp add: invar_def inv_count_def)
qed

text \<open>
  Claim C10. A \<^verbatim>\<open>Wait\<close> that begins when the instance is idle again (\<open>me = 0\<close>, mutex free),
  with any schedule after it. No execution of \<^verbatim>\<open>call\<close> is in progress when it begins. If it
  returns, the channel it received from is the one that was current when it began, that
  is the channel stored at line 76 when the last run ended, or one made later; it is not
  a channel that was already closed when \<^verbatim>\<open>Wait\<close> began; and by the time \<^verbatim>\<open>Wait\<close> returns it
  has been closed by the end of a run in which \<^verbatim>\<open>call\<close> was entered after \<^verbatim>\<open>Wait\<close> began and
  has returned. So the \<^verbatim>\<open>Wait\<close> stays blocked until the next run is complete.
\<close>

theorem Wait_after_idle_waits_for_next_cycle:
  assumes "exec as NewRescheduler = Some s" and "me s = 0" and "\<not> lock s"
    and "w = length (threads s)" and "exec (Call_Wait # bs) s = Some s'"
    and "threads s' ! w = Wait_Ret c"
  shows "finished s = started s \<and> (c = done_ch s \<or> nchan s \<le> c) \<and> c \<notin> closed s \<and>
         c \<in> closed s' \<and> started s < finished s'"
proof -
  have I: "invar s" by (rule reach_invar [OF assms(1)])
  then have nc: "\<not> crashed s" by (simp add: invar_def)
  let ?t = "s\<lparr>threads := threads s @ [Wait_Read]\<rparr>"
  from assms(5) nc have f: "fire Call_Wait s = Some ?t" and e: "exec bs ?t = Some s'" by simp_all
  have It: "invar ?t" by (rule fire_invar [OF f I])
  have I': "invar s'" by (rule exec_invar [OF e It])
  note idle = idle_obl [OF I assms(2,3)]
  have ob: "obl (started s) ?t" "started s \<le> started ?t"
    using obl_fire [OF f I _ idle(1), of "started s"] by simp_all
  have wt: "waits (started s) (done_ch s) (nchan s) w ?t"
    using assms(4) by (simp add: waits_def)
  have W: "waits (started s) (done_ch s) (nchan s) w s'"
    by (rule waits_exec [OF e It ob(2,1) wt])
  from waits_Ret [OF W assms(6)] have r: "started s < finished s'" "c = done_ch s \<or> nchan s \<le> c"
    by simp_all
  from W have "w < length (threads s')" by (simp add: waits_def)
  from invar_Ret_closed [OF I' this assms(6)] have c: "c \<in> closed s'" .
  have "done_ch s \<notin> closed s" using invar_open [OF I] assms(3) by simp
  moreover have "\<forall>x\<in>closed s. x < nchan s" using I by (simp add: invar_def inv_chan_def)
  ultimately have "c \<notin> closed s" using r(2) by auto
  with r c idle(2) show ?thesis by simp
qed

text \<open>
  Claim C6. A goroutine \<open>r\<close> is inside \<^verbatim>\<open>Run\<close> and has not yet written \<open>me\<close> (state \<open>s0\<close>); its
  \<^verbatim>\<open>Run\<close> returns (state \<open>s1\<close>); then \<^verbatim>\<open>Wait\<close> is called and returns (state \<open>s2\<close>). Then an
  execution of \<^verbatim>\<open>call\<close> that was entered after \<open>s0\<close> has returned in \<open>s2\<close>: \<open>finished\<close> there
  exceeds \<open>started\<close> at \<open>s0\<close>, and executions do not overlap. The schedules are arbitrary, so
  this holds also when other goroutines call \<^verbatim>\<open>Run\<close> during the wait; the theorem says
  nothing about whether \<^verbatim>\<open>Wait\<close> returns.
\<close>

theorem Run_then_Wait:
  assumes "exec as NewRescheduler = Some s0" and "r < length (threads s0)"
    and "before_write (threads s0 ! r)"
    and "exec bs s0 = Some s1" and "threads s1 ! r = Run_Ret"
    and "w = length (threads s1)" and "exec (Call_Wait # cs) s1 = Some s2"
    and "threads s2 ! w = Wait_Ret c"
  shows "started s0 < finished s2 \<and> c \<in> closed s2"
proof -
  let ?n = "started s0"
  have I0: "invar s0" by (rule reach_invar [OF assms(1)])
  have I1: "invar s1" by (rule exec_invar [OF assms(4) I0])
  then have nc: "\<not> crashed s1" by (simp add: invar_def)
  have "pending ?n r s0" using assms(2,3) by (simp add: pending_def)
  then have "pending ?n r s1 \<or> served ?n r s1"
    using pending_exec [OF assms(4) I0] by blast
  with assms(5) have S1: "served ?n r s1" by (auto simp: pending_def)
  let ?t = "s1\<lparr>threads := threads s1 @ [Wait_Read]\<rparr>"
  from assms(7) nc have f: "fire Call_Wait s1 = Some ?t" and e: "exec cs ?t = Some s2" by simp_all
  have It: "invar ?t" by (rule fire_invar [OF f I1])
  have I2: "invar s2" by (rule exec_invar [OF e It])
  have St: "served ?n r ?t" by (rule served_fire [OF f I1 S1])
  then have ob: "?n \<le> started ?t" "obl ?n ?t" by (simp_all add: served_def)
  have wt: "waits ?n (done_ch s1) 0 w ?t"
    using assms(6) by (simp add: waits_def)
  have W: "waits ?n (done_ch s1) 0 w s2"
    by (rule waits_exec [OF e It ob wt])
  from waits_Ret [OF W assms(8)] have g: "?n < finished s2" by simp
  from W have "w < length (threads s2)" by (simp add: waits_def)
  from invar_Ret_closed [OF I2 this assms(8)] g show ?thesis by simp
qed

theorem Wait_after_idle_waits_for_next_cycle_witness:
  "exec [Call_Run, Step 0, Step 0, Step 0, Step 0, Step 0, Step 1, Step 1, Step 1, Step 1,
         Step 1, Step 1, Step 1, Step 1] NewRescheduler =
     Some \<lparr>lock = False, me = 0, done_ch = 1, closed = {0}, nchan = 2,
            threads = [Run_Ret, TR_Ret], started = 1, finished = 1, crashed = False\<rparr> \<and>
   exec (Call_Wait # [Step 2, Call_Run, Step 3, Step 3, Step 3, Step 3, Step 3, Step 4, Step 4,
         Step 4, Step 4, Step 4, Step 4, Step 4, Step 4, Step 2])
       \<lparr>lock = False, me = 0, done_ch = 1, closed = {0}, nchan = 2,
         threads = [Run_Ret, TR_Ret], started = 1, finished = 1, crashed = False\<rparr> =
     Some \<lparr>lock = False, me = 0, done_ch = 2, closed = {0, 1}, nchan = 3,
            threads = [Run_Ret, TR_Ret, Wait_Ret 1, Run_Ret, TR_Ret], started = 2, finished = 2,
            crashed = False\<rparr> \<and>
   (1 :: nat) \<notin> {0} \<and> (1 :: nat) \<in> {0, 1} \<and> (1 :: nat) < 2"
proof -
  let ?s = "\<lparr>lock = False, me = 0, done_ch = 1, closed = {0}, nchan = 2,
            threads = [Run_Ret, TR_Ret], started = 1, finished = 1, crashed = False\<rparr>"
  let ?s' = "\<lparr>lock = False, me = 0, done_ch = 2, closed = {0, 1}, nchan = 3,
            threads = [Run_Ret, TR_Ret, Wait_Ret 1, Run_Ret, TR_Ret], started = 2, finished = 2,
            crashed = False\<rparr>"
  have e1: "exec [Call_Run, Step 0, Step 0, Step 0, Step 0, Step 0, Step 1, Step 1, Step 1, Step 1,
         Step 1, Step 1, Step 1, Step 1] NewRescheduler = Some ?s"
    by (simp add: NewRescheduler_def defs)
  have e2: "exec (Call_Wait # [Step 2, Call_Run, Step 3, Step 3, Step 3, Step 3, Step 3, Step 4, Step 4,
         Step 4, Step 4, Step 4, Step 4, Step 4, Step 4, Step 2]) ?s = Some ?s'"
    by (simp add: defs insert_commute)
  have h: "me ?s = 0" "\<not> lock ?s" "2 = length (threads ?s)" "threads ?s' ! 2 = Wait_Ret 1"
    by simp_all
  from Wait_after_idle_waits_for_next_cycle [OF e1 h(1-3) e2 h(4)] e1 e2
  show ?thesis by simp
qed

theorem Run_then_Wait_witness:
  "exec [Step 0, Step 0, Step 0, Step 0, Step 0, Step 1]
       \<lparr>lock = False, me = 0, done_ch = 0, closed = {}, nchan = 1,
         threads = [Run_Lock], started = 0, finished = 0, crashed = False\<rparr> =
     Some \<lparr>lock = False, me = 1, done_ch = 0, closed = {}, nchan = 1,
            threads = [Run_Ret, TR_InCall], started = 1, finished = 0, crashed = False\<rparr> \<and>
   exec (Call_Wait # [Step 2, Step 1, Step 1, Step 1, Step 1, Step 1, Step 1, Step 1, Step 2])
       \<lparr>lock = False, me = 1, done_ch = 0, closed = {}, nchan = 1,
         threads = [Run_Ret, TR_InCall], started = 1, finished = 0, crashed = False\<rparr> =
     Some \<lparr>lock = False, me = 0, done_ch = 1, closed = {0}, nchan = 2,
            threads = [Run_Ret, TR_Ret, Wait_Ret 0], started = 1, finished = 1,
            crashed = False\<rparr> \<and>
   (0 :: nat) < 1 \<and> (0 :: nat) \<in> {0}"
proof -
  let ?s0 = "\<lparr>lock = False, me = 0, done_ch = 0, closed = {}, nchan = 1,
         threads = [Run_Lock], started = 0, finished = 0, crashed = False\<rparr>"
  let ?s1 = "\<lparr>lock = False, me = 1, done_ch = 0, closed = {}, nchan = 1,
            threads = [Run_Ret, TR_InCall], started = 1, finished = 0, crashed = False\<rparr>"
  let ?s2 = "\<lparr>lock = False, me = 0, done_ch = 1, closed = {0}, nchan = 2,
            threads = [Run_Ret, TR_Ret, Wait_Ret 0], started = 1, finished = 1,
            crashed = False\<rparr>"
  have e0: "exec [Call_Run] NewRescheduler = Some ?s0"
    by (simp add: NewRescheduler_def)
  have e1: "exec [Step 0, Step 0, Step 0, Step 0, Step 0, Step 1] ?s0 = Some ?s1"
    by (simp add: defs)
  have e2: "exec (Call_Wait # [Step 2, Step 1, Step 1, Step 1, Step 1, Step 1, Step 1, Step 1, Step 2])
      ?s1 = Some ?s2"
    by (simp add: defs)
  have h: "0 < length (threads ?s0)" "before_write (threads ?s0 ! 0)" "threads ?s1 ! 0 = Run_Ret"
    "2 = length (threads ?s1)" "threads ?s2 ! 2 = Wait_Ret 0"
    by simp_all
  from Run_then_Wait [OF e0 h(1,2) e1 h(3,4) e2 h(5)] e1 e2
  show ?thesis by simp
qed

end
